theory Spec2Isabelle
  imports Complex_Main "HOL-Library.Word" "HOL-Library.Sublist" "HOL-Library.Signed_Division"
begin

section \<open>pingGraphGo: the probe loop and the statistics of \<open>main.go\<close>\<close>

text \<open>
  Conventions of the embedding.
  \<^item> A Go \<open>float64\<close> is a \<open>real\<close>: the values that reach the series are the configured
    \<open>-D\<close> value and whole numbers of milliseconds, all finite. Comparisons of finite
    floats are the comparisons of the reals they denote; sums, quotients and the square
    root are taken exactly, so rounding of the last bit is not part of the model, and
    neither are the infinities and NaN (\<open>-D NaN\<close> is parsed by \<open>flag.Float64\<close> and passes
    both comparisons of line 39).
  \<^item> The \<open>-W\<close> flag is a Go \<open>int\<close>, here an \<open>int\<close>. In the startup check
    \<open>float64(timeout)\<close> is \<open>float64_of_int\<close>, which rounds to the nearest value with a
    significand of 53 bits as the conversion does. In \<open>updateStats\<close> it is
    \<open>real_of_int\<close>, which is what the conversion gives for every timeout of magnitude
    below \<open>2 ^ 53\<close>.
  \<^item> Counters that only count up from zero (\<open>timesLost\<close>, \<open>totalTimeout\<close>, ...) are
    \<open>nat\<close>; the probe counter \<open>pingCount\<close>, which is incremented without bound, is a
    64-bit word read as a signed number (a Go \<open>int\<close> on amd64 and arm64, the
    architectures the Makefile builds for).
  \<^item> A \<open>for _, t := range xs\<close> loop is a \<open>foldl\<close> over the list with the loop's
    variables as the accumulator; the indexed loop of the jitter is a recursive function
    on the index. The series \<open>times\<close> is written \<open>tms\<close>, since \<open>times\<close> is HOL's
    multiplication.
  \<^item> Text written to the terminal and the formatting of the statistics string are left out:
    \<open>updateStats\<close> returns the numbers it formats.
  \<^item> The two activities are modelled one at a time. What the network does in a cycle, and
    what a read of a shared variable returns, are arguments of the functions.
\<close>

subsection \<open>Statistics: \<open>updateStats\<close>\<close>

record stats =
  avgTime :: real
  maxTime :: real
  minTime :: real
  stdDev :: real
  jitter :: real
  percentageGreaterThanTimeout :: real
  percentageLost :: real
  totalN :: nat
  totalTimeout :: nat
  maxSequentialTimeout :: nat
  timesLost :: nat

text \<open>Lines 349-354: the samples that differ from the \<open>deadTimeout\<close> value, in order.\<close>

definition validTimes :: "real list \<Rightarrow> real \<Rightarrow> real list" where
  "validTimes tms D = foldl (\<lambda>acc t. if t \<noteq> D then acc @ [t] else acc) [] tms"

text \<open>Lines 358-361.\<close>

definition sum_loop :: "real list \<Rightarrow> real" where
  "sum_loop vs = foldl (\<lambda>sum t. sum + t) 0.0 vs"

text \<open>Lines 364-373: both bounds start at the first valid sample.\<close>

definition min_max_loop :: "real \<Rightarrow> real list \<Rightarrow> real \<times> real" where
  "min_max_loop v0 vs =
     foldl (\<lambda>(mn, mx) t. (if t < mn then t else mn, if t > mx then t else mx)) (v0, v0) vs"

text \<open>Lines 376-379.\<close>

definition sumSquares_loop :: "real \<Rightarrow> real list \<Rightarrow> real" where
  "sumSquares_loop avg vs = foldl (\<lambda>s t. s + (t - avg) * (t - avg)) 0.0 vs"

text \<open>Lines 384-387: \<open>for i := 1; i < len(validTimes); i++\<close>.\<close>

function sumDiffs_loop :: "real list \<Rightarrow> nat \<Rightarrow> real \<Rightarrow> real" where
  "sumDiffs_loop vs i acc =
     (if i < length vs then sumDiffs_loop vs (i + 1) (acc + \<bar>vs ! i - vs ! (i - 1)\<bar>)
      else acc)"
  by pat_completeness auto
termination
  by (relation "measure (\<lambda>(vs, i, acc). length vs - i)") auto

declare sumDiffs_loop.simps [simp del]

text \<open>Lines 393-402: the two counters of the second pass over the series.\<close>

definition count_loop :: "real list \<Rightarrow> int \<Rightarrow> real \<Rightarrow> nat \<times> nat" where
  "count_loop tms W D =
     foldl (\<lambda>(gt, lost) t.
              (if t > real_of_int W \<and> t \<noteq> D then gt + 1 else gt,
               if t = D then lost + 1 else lost))
           (0, 0) tms"

text \<open>
  Lines 411-430: the third pass; the accumulator is
  \<open>(maxSequentialTimeout, currentSequenceTimeout, totalTimeout)\<close>.
\<close>

definition seq_step :: "int \<Rightarrow> real \<Rightarrow> nat \<times> nat \<times> nat \<Rightarrow> real \<Rightarrow> nat \<times> nat \<times> nat" where
  "seq_step W D acc t =
     (case acc of (mx, cur, tot) \<Rightarrow>
        if t \<ge> real_of_int W \<and> t \<noteq> D then (mx, cur + 1, tot + 1)
        else if t = D then (mx, cur + 1, tot + 1)
        else (if cur > mx then cur else mx, 0, tot))"

definition seq_loop :: "real list \<Rightarrow> int \<Rightarrow> real \<Rightarrow> nat \<times> nat \<times> nat" where
  "seq_loop tms W D = foldl (seq_step W D) (0, 0, 0) tms"

definition updateStats :: "real list \<Rightarrow> int \<Rightarrow> real \<Rightarrow> stats" where
  "updateStats tms W D =
     (let valid = validTimes tms D;
          (avg, mn, mx, sd, jit) =
            (if length valid > 0 then
               let avg = sum_loop valid / real (length valid);
                   (mn, mx) = min_max_loop (valid ! 0) valid;
                   sd = sqrt (sumSquares_loop avg valid / real (length valid));
                   jit = (if length valid > 1
                          then sumDiffs_loop valid 1 0.0 / real (length valid - 1)
                          else 0)
               in (avg, mn, mx, sd, jit)
             else (0, 0, 0, 0, 0));
          (gt, lost) = count_loop tms W D;
          pgt = (if length tms > 0 then real gt / real (length tms) * 100 else 0.0);
          pl = (if length tms > 0 then real lost / real (length tms) * 100 else 0.0);
          (mxs, cur, tot) = seq_loop tms W D;
          mxs' = (if cur > mxs then cur else mxs)
      in \<lparr> avgTime = avg, maxTime = mx, minTime = mn, stdDev = sd, jitter = jit,
           percentageGreaterThanTimeout = pgt, percentageLost = pl,
           totalN = length tms, totalTimeout = tot,
           maxSequentialTimeout = mxs', timesLost = lost \<rparr>)"

subsection \<open>The longest run, as the specification words it\<close>

text \<open>
  A sample counts towards a run when it is lost (it equals the \<open>deadTimeout\<close> value) or its
  latency is at least the timeout. The longest run of a series is the greatest length of a
  contiguous sublist all of whose samples count. This definition follows the specification,
  not the loop of lines 411-430.
\<close>

definition lost_or_timeout :: "int \<Rightarrow> real \<Rightarrow> real \<Rightarrow> bool" where
  "lost_or_timeout W D t \<longleftrightarrow> t = D \<or> t \<ge> real_of_int W"

definition longest_run :: "('a \<Rightarrow> bool) \<Rightarrow> 'a list \<Rightarrow> nat" where
  "longest_run P xs = Max (set (map length (filter (list_all P) (sublists xs))))"

subsection \<open>Startup: the checks of \<open>main\<close> before the probe activity is started\<close>

text \<open>
  Lines 32-48. \<open>args\<close> is \<open>flag.Args()\<close>; \<open>resolve\<close> stands for \<open>resolveHostname\<close> with the
  chosen address family, \<open>None\<close> being its error. \<open>Exit m 1\<close> is printing the message \<open>m\<close>
  and calling \<open>os.Exit(1)\<close>; \<open>Probing h\<close> is reaching line 65, where \<open>ping\<close> is started
  on the resolved address.
\<close>

text \<open>
  \<open>float64(k)\<close> for an integer \<open>k\<close>: the nearest number whose significand has 53 bits, a
  tie going to the even significand. \<open>shift_of a\<close> is the number of low bits of the
  magnitude \<open>a\<close> that do not fit. On the range of a Go \<open>int\<close>, from \<open>- (2 ^ 63)\<close> to
  \<open>2 ^ 63 - 1\<close>, the result is a finite \<open>float64\<close>.
\<close>

function shift_of :: "int \<Rightarrow> nat" where
  "shift_of a = (if a < 2 ^ 53 then 0 else Suc (shift_of (a div 2)))"
  by pat_completeness auto
termination
  by (relation "measure nat") auto

declare shift_of.simps [simp del]

definition float64_of_int :: "int \<Rightarrow> real" where
  "float64_of_int k =
     (let a = \<bar>k\<bar>;
          e = shift_of a;
          q = a div 2 ^ e;
          r = a mod 2 ^ e;
          m = (if 2 * r > 2 ^ e \<or> (2 * r = 2 ^ e \<and> odd q) then q + 1 else q)
      in real_of_int (sgn k * (m * 2 ^ e)))"

datatype message =
    Usage                    \<comment> \<open>\<open>Usage: go run main.go [options] host\<close> and the defaults\<close>
  | DeadTimeoutOutOfRange    \<comment> \<open>\<open>Dead timeout (-D) value ... out of range. Exiting.\<close>\<close>
  | CouldNotResolve          \<comment> \<open>\<open>Could not resolve host ... Exiting.\<close>\<close>

datatype startup = Exit message int | Probing string

definition main_startup ::
  "string list \<Rightarrow> int \<Rightarrow> real \<Rightarrow> (string \<Rightarrow> string option) \<Rightarrow> startup" where
  "main_startup args timeout deadTimeout resolve =
     (if length args < 1 then Exit Usage 1
      else
        let host = args ! 0 in
        if deadTimeout > 10000 \<or> deadTimeout < float64_of_int timeout
        then Exit DeadTimeoutOutOfRange 1
        else (case resolve host of
                None \<Rightarrow> Exit CouldNotResolve 1
              | Some resolvedHost \<Rightarrow> Probing resolvedHost))"

subsection \<open>The probe engine: \<open>ping\<close>\<close>

text \<open>
  What the network and the library calls do in one cycle is an input of the model, one
  \<open>outcome\<close> per cycle, named after the branch of the loop body it selects.
\<close>

datatype outcome =
    MarshalError     \<comment> \<open>\<open>msg.Marshal\<close> returns an error (line 264)\<close>
  | SendError        \<comment> \<open>\<open>conn.WriteTo\<close> returns an error (line 274)\<close>
  | ReadTimeout      \<comment> \<open>\<open>conn.ReadFrom\<close> fails with a \<open>net.Error\<close> that is a timeout (line 294)\<close>
  | ReadError        \<comment> \<open>\<open>conn.ReadFrom\<close> fails otherwise (line 300)\<close>
  | ParseError       \<comment> \<open>\<open>icmp.ParseMessage\<close> returns an error (line 316)\<close>
  | NonEchoReply     \<comment> \<open>the parsed message is of another type (line 333)\<close>
  | EchoReply int    \<comment> \<open>an echo reply; the argument is \<open>time.Since(start)\<close>, in nanoseconds\<close>

text \<open>
  The mutex is not a value of the model. What an activity does with it and with the
  variables of \<open>main\<close> that the other activity can reach is kept as a list of accesses, in
  program order: \<open>mutex.Lock()\<close>, \<open>mutex.Unlock()\<close>, and each read and write of \<open>times\<close>,
  \<open>pings\<close> and \<open>running\<close>. (\<open>pingCount\<close> is touched by \<open>ping\<close> alone.)
\<close>

datatype shared = Times | Pings | Running

datatype access = Lock | Unlock | Read shared | Write shared

text \<open>
  The variables of \<open>main\<close> that \<open>ping\<close> works on through pointers (lines 51-56), the
  arguments of its calls of \<open>time.Sleep\<close>, in seconds, as a record of that effect, and its
  accesses.
\<close>

record engine =
  e_times :: "real list"
  pings :: "64 word list"
  running :: bool
  pingCount :: "64 word"
  sleeps :: "real list"
  accesses :: "access list"

definition init_engine :: engine where
  "init_engine =
     \<lparr> e_times = [], pings = [], running = True, pingCount = 0, sleeps = [], accesses = [] \<rparr>"

text \<open>\<open>Duration.Milliseconds\<close>: integer division of the nanoseconds, truncating towards zero.\<close>

definition Milliseconds :: "int \<Rightarrow> int" where
  "Milliseconds d = d sdiv 1000000"

text \<open>
  The block \<open>mutex.Lock(); *times = append(*times, v); *pings = append(*pings, *pingCount);
  mutex.Unlock()\<close>, which the loop body has in six places. An \<open>append\<close> reads the slice and
  writes it back.
\<close>

definition record_sample :: "real \<Rightarrow> engine \<Rightarrow> engine" where
  "record_sample v s =
     s\<lparr> e_times := e_times s @ [v],
        pings := pings s @ [pingCount s],
        accesses := accesses s @ [Lock, Read Times, Write Times, Read Pings, Write Pings, Unlock] \<rparr>"

definition sleep :: "real \<Rightarrow> engine \<Rightarrow> engine" where
  "sleep interval s = s\<lparr> sleeps := sleeps s @ [interval] \<rparr>"

datatype flow = Continue | Return

text \<open>Lines 239-343: one pass through the loop body.\<close>

definition cycle :: "int \<Rightarrow> real \<Rightarrow> real \<Rightarrow> outcome \<Rightarrow> engine \<Rightarrow> flow \<times> engine" where
  "cycle timeout deadTimeout interval oc s =
     (let s = s\<lparr> pingCount := pingCount s + 1 \<rparr> in
      case oc of
        MarshalError \<Rightarrow>
          (Return, s\<lparr> running := False, accesses := accesses s @ [Write Running] \<rparr>)
      | SendError \<Rightarrow> (Continue, sleep interval (record_sample deadTimeout s))
      | ReadTimeout \<Rightarrow> (Continue, sleep interval (record_sample deadTimeout s))
      | ReadError \<Rightarrow> (Continue, sleep interval (record_sample deadTimeout s))
      | ParseError \<Rightarrow> (Continue, sleep interval (record_sample deadTimeout s))
      | EchoReply duration \<Rightarrow>
          (let delay = real_of_int (Milliseconds duration)
           in (Continue, sleep interval (record_sample delay s)))
      | NonEchoReply \<Rightarrow> (Continue, sleep interval (record_sample deadTimeout s)))"

text \<open>
  Line 238, \<open>for *running\<close>, over the outcomes of the cycles that have taken place: the
  result is the state when \<open>ping\<close> has returned, or, when the outcomes are used up with the
  flag still set, the state at the head of the next cycle. The flag changes only through
  \<open>ping\<close> here: the main activity clears it only on its way to \<open>os.Exit(0)\<close> (lines
  112-115 and 125-128), which ends the probe activity with the process.
\<close>

fun ping_loop :: "int \<Rightarrow> real \<Rightarrow> real \<Rightarrow> outcome list \<Rightarrow> engine \<Rightarrow> engine" where
  "ping_loop timeout deadTimeout interval [] s = s"
| "ping_loop timeout deadTimeout interval (oc # ocs) s =
     (let s = s\<lparr> accesses := accesses s @ [Read Running] \<rparr> in
      if running s then
        (case cycle timeout deadTimeout interval oc s of
           (Return, s') \<Rightarrow> s'
         | (Continue, s') \<Rightarrow> ping_loop timeout deadTimeout interval ocs s')
      else s)"

text \<open>Lines 228-233 and the loop; \<open>listen_ok\<close> is whether \<open>icmp.ListenPacket\<close> succeeded.\<close>

definition ping :: "int \<Rightarrow> real \<Rightarrow> real \<Rightarrow> bool \<Rightarrow> outcome list \<Rightarrow> engine \<Rightarrow> engine" where
  "ping timeout deadTimeout interval listen_ok ocs s =
     (if \<not> listen_ok then s\<lparr> running := False, accesses := accesses s @ [Write Running] \<rparr>
      else ping_loop timeout deadTimeout interval ocs s)"

text \<open>The cycles of a trace that ran to their end: those before the first marshalling error.\<close>

definition completed :: "outcome list \<Rightarrow> outcome list" where
  "completed ocs = takeWhile (\<lambda>oc. oc \<noteq> MarshalError) ocs"

subsection \<open>The ticker branch of the render loop\<close>

text \<open>
  Lines 141-180. The branch reads \<open>times\<close> two or three times: when it copies it into
  \<open>plotData\<close> between \<open>mutex.Lock()\<close> and \<open>mutex.Unlock()\<close>, and in each call of
  \<open>updateStats(&times, ...)\<close>, after the mutex is released. The probe activity may append in
  between, so the value seen by each read is an argument of its own. The scaling of the
  plot and the widgets are left out.
\<close>

record tick =
  plotData :: "real list"
  statsText :: stats
  rendered :: bool
  t_accesses :: "access list"

definition render_tick ::
  "int \<Rightarrow> real \<Rightarrow> real list \<Rightarrow> real list \<Rightarrow> real list \<Rightarrow> tick" where
  "render_tick timeout deadTimeout times_copy times_stats times_stats2 =
     (let plotData = times_copy;
          acc = [Lock, Read Times, Unlock];
          statsText = updateStats times_stats timeout deadTimeout;
          acc = acc @ [Read Times]
      in if length plotData \<ge> 2
         then \<lparr> plotData = plotData, statsText = statsText, rendered = True, t_accesses = acc \<rparr>
         else \<lparr> plotData = plotData,
                statsText = updateStats times_stats2 timeout deadTimeout,
                rendered = False, t_accesses = acc @ [Read Times] \<rparr>)"

subsection \<open>The lock discipline, as the specification words it\<close>

text \<open>
  \<open>guarded P held as\<close>: in the accesses \<open>as\<close> of one activity, started with the mutex held
  by it or not, every read and write of a variable that satisfies \<open>P\<close> happens while the
  activity holds the mutex. \<open>held_after\<close> is whether it holds the mutex at the end.
\<close>

fun guarded :: "(shared \<Rightarrow> bool) \<Rightarrow> bool \<Rightarrow> access list \<Rightarrow> bool" where
  "guarded P held [] = True"
| "guarded P held (Lock # as) = guarded P True as"
| "guarded P held (Unlock # as) = guarded P False as"
| "guarded P held (Read v # as) = ((if P v then held else True) \<and> guarded P held as)"
| "guarded P held (Write v # as) = ((if P v then held else True) \<and> guarded P held as)"

fun held_after :: "bool \<Rightarrow> access list \<Rightarrow> bool" where
  "held_after held [] = held"
| "held_after held (Lock # as) = held_after True as"
| "held_after held (Unlock # as) = held_after False as"
| "held_after held (Read v # as) = held_after held as"
| "held_after held (Write v # as) = held_after held as"

text \<open>
  \<open>whole_when_free held nt np as\<close>: \<open>nt\<close> and \<open>np\<close> count the writes of \<open>times\<close> and of
  \<open>pings\<close> so far. At every point of the accesses \<open>as\<close> at which the activity does not hold
  the mutex, and so another activity can hold it, the two counts are equal: no sample is
  half recorded there.
\<close>

fun whole_when_free :: "bool \<Rightarrow> nat \<Rightarrow> nat \<Rightarrow> access list \<Rightarrow> bool" where
  "whole_when_free held nt np [] = (if held then True else nt = np)"
| "whole_when_free held nt np (Lock # as) =
     ((if held then True else nt = np) \<and> whole_when_free True nt np as)"
| "whole_when_free held nt np (Unlock # as) = whole_when_free False nt np as"
| "whole_when_free held nt np (Read v # as) =
     ((if held then True else nt = np) \<and> whole_when_free held nt np as)"
| "whole_when_free held nt np (Write v # as) =
     ((if held then True else nt = np) \<and>
      whole_when_free held (if v = Times then Suc nt else nt) (if v = Pings then Suc np else np) as)"

definition series :: "shared \<Rightarrow> bool" where
  "series v \<longleftrightarrow> v = Times \<or> v = Pings"

definition flag :: "shared \<Rightarrow> bool" where
  "flag v \<longleftrightarrow> v = Running"

definition series_or_flag :: "shared \<Rightarrow> bool" where
  "series_or_flag v \<longleftrightarrow> series v \<or> flag v"

section \<open>Properties\<close>

subsection \<open>The loops of \<open>updateStats\<close> in closed form\<close>

lemma validTimes_foldl:
  "foldl (\<lambda>acc t. if t \<noteq> D then acc @ [t] else acc) acc tms = acc @ filter (\<lambda>t. t \<noteq> D) tms"
  by (induction tms arbitrary: acc) simp_all

lemma validTimes_filter: "validTimes tms D = filter (\<lambda>t. t \<noteq> D) tms"
  by (simp add: validTimes_def validTimes_foldl)

lemma sum_foldl: "foldl (\<lambda>sum t. sum + t) (a::real) vs = a + sum_list vs"
  by (induction vs arbitrary: a) simp_all

lemma sum_loop_sum_list: "sum_loop vs = sum_list vs"
  by (simp add: sum_loop_def sum_foldl)

lemma min_max_foldl:
  "foldl (\<lambda>(mn, mx) t. (if t < mn then t else mn, if t > mx then t else mx)) (a, b) vs
     = (fold min vs a, fold max vs (b::real))"
proof (induction vs arbitrary: a b)
  case Nil
  show ?case by simp
next
  case (Cons v vs)
  have mn: "(if v < a then v else a) = min v a"
    by (simp add: min_def)
  have mx: "(if b < v then v else b) = max v b"
    by (simp add: max_def)
  show ?case by (simp add: Cons.IH mn mx)
qed

lemma min_max_loop_Min_Max:
  assumes "vs \<noteq> []"
  shows "min_max_loop (vs ! 0) vs = (Min (set vs), Max (set vs))"
proof -
  from assms have "vs ! 0 \<in> set vs" by (cases vs) simp_all
  then have "set (vs ! 0 # vs) = set vs" by auto
  then have "fold min vs (vs ! 0) = Min (set vs)" "fold max vs (vs ! 0) = Max (set vs)"
    using Min.set_eq_fold [of "vs ! 0" vs] Max.set_eq_fold [of "vs ! 0" vs] by simp_all
  then show ?thesis
    by (simp add: min_max_loop_def min_max_foldl)
qed

lemma sumSquares_foldl:
  "foldl (\<lambda>s t. s + (t - avg) * (t - avg)) (a::real) vs = a + (\<Sum>t\<leftarrow>vs. (t - avg)\<^sup>2)"
  by (induction vs arbitrary: a) (simp_all add: power2_eq_square)

lemma sumSquares_loop_sum: "sumSquares_loop avg vs = (\<Sum>t\<leftarrow>vs. (t - avg)\<^sup>2)"
  by (simp add: sumSquares_loop_def sumSquares_foldl)

lemma sumDiffs_loop_sum:
  "i \<le> length vs \<Longrightarrow> sumDiffs_loop vs i acc = acc + (\<Sum>k = i..<length vs. \<bar>vs ! k - vs ! (k - 1)\<bar>)"
proof (induction vs i acc rule: sumDiffs_loop.induct)
  case (1 vs i acc)
  show ?case
  proof (cases "i < length vs")
    case True
    then have "sumDiffs_loop vs i acc = sumDiffs_loop vs (i + 1) (acc + \<bar>vs ! i - vs ! (i - 1)\<bar>)"
      by (subst sumDiffs_loop.simps) simp
    also have "\<dots> = acc + \<bar>vs ! i - vs ! (i - 1)\<bar> + (\<Sum>k = i + 1..<length vs. \<bar>vs ! k - vs ! (k - 1)\<bar>)"
      using True "1.IH" by simp
    also have "\<dots> = acc + (\<Sum>k = i..<length vs. \<bar>vs ! k - vs ! (k - 1)\<bar>)"
      using True by (simp add: sum.atLeast_Suc_lessThan)
    finally show ?thesis .
  next
    case False
    with "1.prems" have "i = length vs" by simp
    then show ?thesis by (subst sumDiffs_loop.simps) simp
  qed
qed

lemma count_foldl:
  "foldl (\<lambda>(gt, lost) t.
              (if t > real_of_int W \<and> t \<noteq> D then gt + 1 else gt,
               if t = D then lost + 1 else lost)) (g, l) tms
   = (g + length (filter (\<lambda>t. t > real_of_int W \<and> t \<noteq> D) tms), l + length (filter (\<lambda>t. t = D) tms))"
  by (induction tms arbitrary: g l) simp_all

lemma count_loop_filter:
  "count_loop tms W D =
     (length (filter (\<lambda>t. t > real_of_int W \<and> t \<noteq> D) tms), length (filter (\<lambda>t. t = D) tms))"
  by (simp add: count_loop_def count_foldl)

subsection \<open>The longest run and the third pass\<close>

lemma longest_run_ge:
  assumes "sublist ys xs" "list_all P ys"
  shows "length ys \<le> longest_run P xs"
proof -
  let ?L = "filter (list_all P) (sublists xs)"
  from assms have "ys \<in> set ?L" by simp
  then have "length ys \<in> set (map length ?L)" unfolding set_map by (rule imageI)
  then show ?thesis unfolding longest_run_def by (intro Max_ge finite_set)
qed

lemma longest_run_attained:
  "\<exists>ys. sublist ys xs \<and> list_all P ys \<and> length ys = longest_run P xs"
proof -
  let ?L = "filter (list_all P) (sublists xs)"
  have "[] \<in> set ?L" by simp
  then have "length ([]::'a list) \<in> set (map length ?L)" unfolding set_map by (rule imageI)
  then have "set (map length ?L) \<noteq> {}" by (metis empty_iff)
  then have "Max (set (map length ?L)) \<in> set (map length ?L)"
    by (intro Max_in finite_set)
  then obtain ys where "ys \<in> set ?L" "length ys = longest_run P xs"
    unfolding longest_run_def set_map by (auto simp del: set_filter)
  then show ?thesis by auto
qed

lemma longest_run_eqI:
  assumes "sublist zs xs" "list_all P zs" "length zs = n"
    and "\<And>ys. sublist ys xs \<Longrightarrow> list_all P ys \<Longrightarrow> length ys \<le> n"
  shows "longest_run P xs = n"
proof (rule antisym)
  from longest_run_attained [of xs P] assms(4) show "longest_run P xs \<le> n" by metis
  from longest_run_ge [OF assms(1,2)] assms(3) show "n \<le> longest_run P xs" by simp
qed

lemma prefix_all_takeWhile:
  assumes "prefix ys zs" "list_all P ys"
  shows "length ys \<le> length (takeWhile P zs)"
proof -
  from assms(2) have "takeWhile P ys = ys" by (simp add: list_all_iff)
  with prefix_takeWhile [OF assms(1), of P] have "prefix ys (takeWhile P zs)" by simp
  then show ?thesis by (rule prefix_length_le)
qed

lemma longest_run_Cons:
  "longest_run P (x # xs) = max (length (takeWhile P (x # xs))) (longest_run P xs)"
proof -
  obtain zs where zs: "sublist zs xs" "list_all P zs" "length zs = longest_run P xs"
    using longest_run_attained [of xs P] by blast
  let ?tw = "takeWhile P (x # xs)"
  have tw1: "sublist ?tw (x # xs)"
    by (rule sublist_takeWhile)
  have tw2: "list_all P ?tw"
    unfolding list_all_iff by (blast dest: set_takeWhileD)
  note tw = tw1 tw2
  have ub: "length ys \<le> max (length ?tw) (longest_run P xs)"
    if "sublist ys (x # xs)" "list_all P ys" for ys
  proof -
    from that(1) consider "prefix ys (x # xs)" | "sublist ys xs"
      by (auto simp: sublist_Cons_right)
    then show ?thesis
    proof cases
      case 1
      from prefix_all_takeWhile [OF 1 that(2)] show ?thesis by simp
    next
      case 2
      from longest_run_ge [OF 2 that(2)] show ?thesis by simp
    qed
  qed
  show ?thesis
  proof (cases "length ?tw \<le> longest_run P xs")
    case True
    have "sublist zs (x # xs)" using zs(1) by (simp add: sublist_Cons_right)
    from longest_run_eqI [OF this zs(2), of "max (length ?tw) (longest_run P xs)"] ub zs(3) True
    show ?thesis by (simp add: max_def)
  next
    case False
    from longest_run_eqI [OF tw, of "max (length ?tw) (longest_run P xs)"] ub False
    show ?thesis by (simp add: max_def)
  qed
qed

lemma takeWhile_le_longest_run: "length (takeWhile P xs) \<le> longest_run P xs"
  by (rule longest_run_ge) (auto simp: list_all_iff dest: set_takeWhileD)

lemma longest_run_Nil: "longest_run P [] = 0"
  by (simp add: longest_run_def)

text \<open>The same number, as the maximum of a set of lengths.\<close>

lemma longest_run_Max:
  "longest_run P xs = Max {length ys |ys. sublist ys xs \<and> (\<forall>y\<in>set ys. P y)}"
proof -
  have "set (map length (filter (list_all P) (sublists xs))) =
          {length ys |ys. sublist ys xs \<and> (\<forall>y\<in>set ys. P y)}"
    by (auto simp: list_all_iff)
  then show ?thesis by (simp only: longest_run_def)
qed

lemma seq_foldl:
  "foldl (seq_step W D) (mx, cur, tot) tms = (mx', cur', tot') \<Longrightarrow>
     max mx' cur' = max mx (max (cur + length (takeWhile (lost_or_timeout W D) tms))
                               (longest_run (lost_or_timeout W D) tms))"
proof (induction tms arbitrary: mx cur tot)
  case Nil
  then show ?case by (auto simp: longest_run_Nil)
next
  case (Cons t tms)
  show ?case
  proof (cases "lost_or_timeout W D t")
    case True
    then have step: "seq_step W D (mx, cur, tot) t = (mx, cur + 1, tot + 1)"
      by (auto simp: seq_step_def lost_or_timeout_def)
    from Cons.prems have "foldl (seq_step W D) (mx, cur + 1, tot + 1) tms = (mx', cur', tot')"
      by (simp add: step)
    from Cons.IH [OF this] True show ?thesis
      by (simp add: longest_run_Cons [of _ t] max_def)
  next
    case False
    then have step: "seq_step W D (mx, cur, tot) t = (if cur > mx then cur else mx, 0, tot)"
      by (auto simp: seq_step_def lost_or_timeout_def)
    from Cons.prems have "foldl (seq_step W D) (if cur > mx then cur else mx, 0, tot) tms = (mx', cur', tot')"
      by (simp add: step)
    from Cons.IH [OF this] False takeWhile_le_longest_run [of "lost_or_timeout W D" tms] show ?thesis
      by (simp add: longest_run_Cons [of _ t] max_def)
  qed
qed

subsection \<open>The state of the engine after a trace of cycles\<close>

lemma cycle_completes:
  "oc \<noteq> MarshalError \<Longrightarrow>
     cycle W D i oc s =
       (Continue,
        s\<lparr> pingCount := pingCount s + 1,
           e_times := e_times s @ [case oc of EchoReply d \<Rightarrow> real_of_int (Milliseconds d) | _ \<Rightarrow> D],
           pings := pings s @ [pingCount s + 1],
           sleeps := sleeps s @ [i],
           accesses := accesses s @ [Lock, Read Times, Write Times, Read Pings, Write Pings, Unlock] \<rparr>)"
  by (cases oc) (simp_all add: cycle_def record_sample_def sleep_def)

lemma cycle_marshal:
  "cycle W D i MarshalError s =
     (Return, s\<lparr> pingCount := pingCount s + 1, running := False,
                 accesses := accesses s @ [Write Running] \<rparr>)"
  by (simp add: cycle_def)

lemma ping_loop_step:
  "running s \<Longrightarrow> oc \<noteq> MarshalError \<Longrightarrow>
     ping_loop W D i (oc # ocs) s =
       ping_loop W D i ocs (snd (cycle W D i oc (s\<lparr> accesses := accesses s @ [Read Running] \<rparr>)))"
  by (simp add: cycle_completes)

lemma ping_loop_times:
  "running s \<Longrightarrow>
     e_times (ping_loop W D i ocs s) =
       e_times s @ map (\<lambda>oc. case oc of EchoReply d \<Rightarrow> real_of_int (Milliseconds d) | _ \<Rightarrow> D)
                       (completed ocs)"
proof (induction ocs arbitrary: s)
  case Nil
  show ?case by (simp add: completed_def)
next
  case (Cons oc ocs)
  show ?case
  proof (cases "oc = MarshalError")
    case True
    with Cons.prems show ?thesis by (simp add: completed_def cycle_marshal)
  next
    case False
    let ?s' = "snd (cycle W D i oc (s\<lparr> accesses := accesses s @ [Read Running] \<rparr>))"
    from Cons.prems False have run: "running ?s'" by (simp add: cycle_completes)
    from Cons.prems False have "ping_loop W D i (oc # ocs) s = ping_loop W D i ocs ?s'"
      by (rule ping_loop_step)
    with Cons.IH [OF run] False show ?thesis
      by (simp add: completed_def cycle_completes)
  qed
qed

lemma ping_loop_pings:
  "running s \<Longrightarrow>
     pings (ping_loop W D i ocs s) =
       pings s @ map (\<lambda>k. pingCount s + word_of_nat k) [1..<Suc (length (completed ocs))]"
proof (induction ocs arbitrary: s)
  case Nil
  show ?case by (simp add: completed_def)
next
  case (Cons oc ocs)
  show ?case
  proof (cases "oc = MarshalError")
    case True
    with Cons.prems show ?thesis by (simp add: completed_def cycle_marshal)
  next
    case False
    let ?s' = "snd (cycle W D i oc (s\<lparr> accesses := accesses s @ [Read Running] \<rparr>))"
    let ?n = "length (completed ocs)"
    from Cons.prems False have run: "running ?s'" by (simp add: cycle_completes)
    from Cons.prems False have step: "ping_loop W D i (oc # ocs) s = ping_loop W D i ocs ?s'"
      by (rule ping_loop_step)
    have upt: "[1..<Suc (Suc ?n)] = 1 # map Suc [1..<Suc ?n]"
      by (simp add: map_Suc_upt upt_conv_Cons del: upt_Suc)
    have len: "length (completed (oc # ocs)) = Suc ?n"
      using False by (simp add: completed_def)
    have "pings (ping_loop W D i ocs ?s') =
            pings ?s' @ map (\<lambda>k. pingCount ?s' + word_of_nat k) [1..<Suc ?n]"
      by (rule Cons.IH [OF run])
    also have "\<dots> = pings s @ map (\<lambda>k. pingCount s + word_of_nat k) [1..<Suc (Suc ?n)]"
      unfolding upt using False by (simp add: cycle_completes o_def add.assoc)
    finally show ?thesis by (simp only: step len)
  qed
qed

lemma ping_loop_sleeps:
  "running s \<Longrightarrow>
     sleeps (ping_loop W D i ocs s) = sleeps s @ replicate (length (completed ocs)) i"
proof (induction ocs arbitrary: s)
  case Nil
  show ?case by (simp add: completed_def)
next
  case (Cons oc ocs)
  show ?case
  proof (cases "oc = MarshalError")
    case True
    with Cons.prems show ?thesis by (simp add: completed_def cycle_marshal)
  next
    case False
    let ?s' = "snd (cycle W D i oc (s\<lparr> accesses := accesses s @ [Read Running] \<rparr>))"
    from Cons.prems False have run: "running ?s'" by (simp add: cycle_completes)
    from Cons.prems False have "ping_loop W D i (oc # ocs) s = ping_loop W D i ocs ?s'"
      by (rule ping_loop_step)
    with Cons.IH [OF run] False show ?thesis
      by (simp add: completed_def cycle_completes replicate_append_same)
  qed
qed

lemma ping_loop_running:
  "running s \<Longrightarrow> running (ping_loop W D i ocs s) \<longleftrightarrow> MarshalError \<notin> set ocs"
proof (induction ocs arbitrary: s)
  case Nil
  then show ?case by simp
next
  case (Cons oc ocs)
  show ?case
  proof (cases "oc = MarshalError")
    case True
    with Cons.prems show ?thesis by (simp add: cycle_marshal)
  next
    case False
    let ?s' = "snd (cycle W D i oc (s\<lparr> accesses := accesses s @ [Read Running] \<rparr>))"
    from Cons.prems False have run: "running ?s'" by (simp add: cycle_completes)
    from Cons.prems False have "ping_loop W D i (oc # ocs) s = ping_loop W D i ocs ?s'"
      by (rule ping_loop_step)
    with Cons.IH [OF run] False show ?thesis by auto
  qed
qed

lemma sint_word_of_nat_64:
  "k < 2 ^ 63 \<Longrightarrow> sint (word_of_nat k :: 64 word) = int k"
proof -
  assume "k < 2 ^ 63"
  then have "int k < 2 ^ 63" by simp
  then show ?thesis
    by (simp add: signed_of_nat signed_take_bit_int_eq_self)
qed

subsection \<open>The statistics\<close>

lemma updateStats_avgTime:
  "avgTime (updateStats tms W D) =
     (let v = validTimes tms D in if length v > 0 then sum_loop v / real (length v) else 0)"
  by (simp add: updateStats_def Let_def split_beta)

lemma updateStats_minTime:
  "minTime (updateStats tms W D) =
     (let v = validTimes tms D in if length v > 0 then fst (min_max_loop (v ! 0) v) else 0)"
  by (simp add: updateStats_def Let_def split_beta)

lemma updateStats_maxTime:
  "maxTime (updateStats tms W D) =
     (let v = validTimes tms D in if length v > 0 then snd (min_max_loop (v ! 0) v) else 0)"
  by (simp add: updateStats_def Let_def split_beta)

lemma updateStats_stdDev:
  "stdDev (updateStats tms W D) =
     (let v = validTimes tms D in
      if length v > 0
      then sqrt (sumSquares_loop (sum_loop v / real (length v)) v / real (length v)) else 0)"
  by (simp add: updateStats_def Let_def split_beta)

lemma updateStats_jitter:
  "jitter (updateStats tms W D) =
     (let v = validTimes tms D in
      if length v > 0 \<and> length v > 1 then sumDiffs_loop v 1 0 / real (length v - 1) else 0)"
  by (simp add: updateStats_def Let_def split_beta)

lemma updateStats_percentages:
  "percentageGreaterThanTimeout (updateStats tms W D) =
     (if length tms > 0 then real (fst (count_loop tms W D)) / real (length tms) * 100 else 0)"
  "percentageLost (updateStats tms W D) =
     (if length tms > 0 then real (snd (count_loop tms W D)) / real (length tms) * 100 else 0)"
  "timesLost (updateStats tms W D) = snd (count_loop tms W D)"
  by (simp_all add: updateStats_def Let_def split_beta)

lemma updateStats_maxSequentialTimeout:
  "maxSequentialTimeout (updateStats tms W D) =
     (case seq_loop tms W D of (mxs, cur, tot) \<Rightarrow> max mxs cur)"
  by (simp add: updateStats_def Let_def split_beta max_def)

lemma seq_loop_longest_run:
  "(case seq_loop tms W D of (mxs, cur, tot) \<Rightarrow> max mxs cur) =
     longest_run (lost_or_timeout W D) tms"
proof -
  obtain mxs cur tot where r: "seq_loop tms W D = (mxs, cur, tot)"
    by (cases "seq_loop tms W D") auto
  then have "foldl (seq_step W D) (0, 0, 0) tms = (mxs, cur, tot)"
    by (simp add: seq_loop_def)
  from seq_foldl [OF this] takeWhile_le_longest_run [of "lost_or_timeout W D" tms]
  have "max mxs cur = longest_run (lost_or_timeout W D) tms" by simp
  with r show ?thesis by simp
qed

text \<open>
  C2. The longest-run statistic of \<open>updateStats\<close> is the length of the longest contiguous
  run, in the order of the unfiltered series, of samples that are lost or have a latency of
  at least the timeout. For the series [lost, 5, lost, lost, 5] with a timeout of 100 (and a
  \<open>deadTimeout\<close> value that is not below it) the statistic is 2.
\<close>

theorem longest_run_statistic:
  "maxSequentialTimeout (updateStats tms W D) = longest_run (lost_or_timeout W D) tms \<and>
   (real_of_int W \<le> D \<longrightarrow> W = 100 \<longrightarrow>
      maxSequentialTimeout (updateStats [D, 5, D, D, 5] W D) = 2)"
proof
  show "maxSequentialTimeout (updateStats tms W D) = longest_run (lost_or_timeout W D) tms"
    by (simp only: updateStats_maxSequentialTimeout seq_loop_longest_run)
next
  show "real_of_int W \<le> D \<longrightarrow> W = 100 \<longrightarrow>
      maxSequentialTimeout (updateStats [D, 5, D, D, 5] W D) = 2"
    by (simp add: updateStats_maxSequentialTimeout seq_loop_def seq_step_def)
qed

theorem longest_run_statistic_witness:
  "real_of_int 100 \<le> (500::real) \<and>
   maxSequentialTimeout (updateStats [500, 5, 500, 500, 5] 100 500) = 2 \<and>
   longest_run (lost_or_timeout 100 500) [500, 5, 500, 500, 5] = 2 \<and>
   longest_run (lost_or_timeout 100 500) [120, 500, 99, 500, 100, 101, 5, 500] = 3"
  using longest_run_statistic [of "[500, 5, 500, 500, 5]" 100 500]
        longest_run_statistic [of "[120, 500, 99, 500, 100, 101, 5, 500]" 100 500]
  by (simp add: updateStats_maxSequentialTimeout seq_loop_def seq_step_def)

text \<open>
  C3. When the series has at least two valid samples (samples that differ from the
  \<open>deadTimeout\<close> value), the jitter of \<open>updateStats\<close> is the mean of the absolute
  differences of neighbouring elements of the filtered list of valid samples, in the order
  of emission: neighbours in the filtered list, not in the series. When the valid samples
  are 10, 20, 30 the jitter is 10.
\<close>

theorem jitter_statistic:
  "(let valid = filter (\<lambda>t. t \<noteq> D) tms; n = length valid in
     (2 \<le> n \<longrightarrow>
        jitter (updateStats tms W D) =
          (\<Sum>k = 1..<n. \<bar>valid ! k - valid ! (k - 1)\<bar>) / real (n - 1)) \<and>
     (valid = [10, 20, 30] \<longrightarrow> jitter (updateStats tms W D) = 10))"
proof -
  let ?v = "filter (\<lambda>t. t \<noteq> D) tms"
  have general: "jitter (updateStats tms W D) =
          (\<Sum>k = 1..<length ?v. \<bar>?v ! k - ?v ! (k - 1)\<bar>) / real (length ?v - 1)"
    if "2 \<le> length ?v"
  proof -
    from that have "1 \<le> length ?v" by simp
    from sumDiffs_loop_sum [OF this, of 0] that show ?thesis
      by (simp add: updateStats_jitter validTimes_filter Let_def)
  qed
  have example: "jitter (updateStats tms W D) = 10" if "?v = [10, 20, 30]"
  proof -
    have "(\<Sum>k = 1..<3. \<bar>[10, 20, 30::real] ! k - [10, 20, 30] ! (k - 1)\<bar>) = 20"
      by (simp add: sum.atLeast_Suc_lessThan numeral_3_eq_3)
    with general that show ?thesis by simp
  qed
  from general example show ?thesis by (simp add: Let_def)
qed

theorem jitter_statistic_witness:
  "filter (\<lambda>t. t \<noteq> 500) [10, 500, 20, 500, 500, 30::real] = [10, 20, 30] \<and>
   jitter (updateStats [10, 500, 20, 500, 500, 30] 150 500) = 10 \<and>
   filter (\<lambda>t. t \<noteq> 500) [7, 500, 3, 12::real] = [7, 3, 12] \<and>
   jitter (updateStats [7, 500, 3, 12] 150 500) = 13 / 2"
  using jitter_statistic [of 500 "[10, 500, 20, 500, 500, 30]" 150]
        jitter_statistic [of 500 "[7, 500, 3, 12]" 150]
  by (simp add: Let_def sum.atLeast_Suc_lessThan numeral_3_eq_3)

lemma sqrt_200_3: "\<bar>sqrt (200 / 3) - 8.165\<bar> < (0.001::real)"
proof -
  have lo: "(8.164::real) < sqrt (200 / 3)"
    by (rule real_less_rsqrt) (simp add: power2_eq_square)
  have hi: "sqrt (200 / 3) < (8.166::real)"
    by (rule real_less_lsqrt) (simp_all add: power2_eq_square)
  from lo hi show ?thesis by (simp only: abs_less_iff) linarith
qed

text \<open>
  C4. \<open>updateStats\<close> takes the average as the arithmetic mean of the valid samples, the
  minimum and the maximum over the valid samples only, and the standard deviation as the
  population standard deviation (the sum of the squared deviations divided by the number
  of valid samples). Without a valid sample the average, minimum, maximum, standard
  deviation and jitter are all 0, by the test of line 357. For the valid samples 10, 20, 30
  the average is 20, the minimum 10, the maximum 30 and the standard deviation
  \<open>sqrt (200 / 3)\<close>, which is 8.165 to three decimals.
\<close>

theorem basic_statistics:
  "(let valid = filter (\<lambda>t. t \<noteq> D) tms; n = real (length valid); st = updateStats tms W D in
     (valid \<noteq> [] \<longrightarrow>
        avgTime st = sum_list valid / n \<and>
        minTime st = Min (set valid) \<and>
        maxTime st = Max (set valid) \<and>
        stdDev st = sqrt ((\<Sum>t\<leftarrow>valid. (t - sum_list valid / n)\<^sup>2) / n)) \<and>
     (valid = [] \<longrightarrow>
        avgTime st = 0 \<and> minTime st = 0 \<and> maxTime st = 0 \<and> stdDev st = 0 \<and> jitter st = 0) \<and>
     (valid = [10, 20, 30] \<longrightarrow>
        avgTime st = 20 \<and> minTime st = 10 \<and> maxTime st = 30 \<and>
        stdDev st = sqrt (200 / 3) \<and> \<bar>stdDev st - 8.165\<bar> < 0.001))"
proof -
  let ?v = "filter (\<lambda>t. t \<noteq> D) tms"
  let ?st = "updateStats tms W D"
  let ?n = "real (length ?v)"
  have nonempty:
    "avgTime ?st = sum_list ?v / ?n \<and> minTime ?st = Min (set ?v) \<and> maxTime ?st = Max (set ?v) \<and>
     stdDev ?st = sqrt ((\<Sum>t\<leftarrow>?v. (t - sum_list ?v / ?n)\<^sup>2) / ?n)"
    if "?v \<noteq> []"
  proof -
    from that have len: "0 < length ?v" by simp
    have avg: "avgTime ?st = sum_list ?v / ?n"
      using len by (simp add: updateStats_avgTime validTimes_filter sum_loop_sum_list Let_def)
    have mn: "minTime ?st = Min (set ?v)"
      using len min_max_loop_Min_Max [OF that]
      by (simp add: updateStats_minTime validTimes_filter Let_def)
    have mx: "maxTime ?st = Max (set ?v)"
      using len min_max_loop_Min_Max [OF that]
      by (simp add: updateStats_maxTime validTimes_filter Let_def)
    have sd: "stdDev ?st = sqrt ((\<Sum>t\<leftarrow>?v. (t - sum_list ?v / ?n)\<^sup>2) / ?n)"
      using len
      by (simp add: updateStats_stdDev validTimes_filter sum_loop_sum_list
          sumSquares_loop_sum Let_def)
    from avg mn mx sd show ?thesis by blast
  qed
  have empty:
    "avgTime ?st = 0 \<and> minTime ?st = 0 \<and> maxTime ?st = 0 \<and> stdDev ?st = 0 \<and> jitter ?st = 0"
    if "?v = []"
    using that
    by (simp add: updateStats_avgTime updateStats_minTime updateStats_maxTime
        updateStats_stdDev updateStats_jitter validTimes_filter Let_def)
  have example:
    "avgTime ?st = 20 \<and> minTime ?st = 10 \<and> maxTime ?st = 30 \<and>
     stdDev ?st = sqrt (200 / 3) \<and> \<bar>stdDev ?st - 8.165\<bar> < 0.001"
    if v: "?v = [10, 20, 30]"
  proof -
    from v have "?v \<noteq> []" by simp
    from nonempty [OF this] have
      avg: "avgTime ?st = 20" and mn: "minTime ?st = 10" and mx: "maxTime ?st = 30"
      and sd: "stdDev ?st = sqrt ((\<Sum>t\<leftarrow>?v. (t - sum_list ?v / ?n)\<^sup>2) / ?n)"
      by (simp_all add: v)
    have "((\<Sum>t\<leftarrow>[10, 20, 30::real]. (t - 20)\<^sup>2) / 3) = 200 / 3"
      by (simp add: power2_eq_square)
    with sd have sd': "stdDev ?st = sqrt (200 / 3)" by (simp add: v)
    from avg mn mx sd' sqrt_200_3 show ?thesis by simp
  qed
  from nonempty empty example show ?thesis by (simp add: Let_def)
qed

theorem basic_statistics_witness:
  "filter (\<lambda>t. t \<noteq> 500) [30, 500, 10, 500, 20::real] = [30, 10, 20] \<and>
   avgTime (updateStats [30, 500, 10, 500, 20] 150 500) = 20 \<and>
   minTime (updateStats [30, 500, 10, 500, 20] 150 500) = 10 \<and>
   maxTime (updateStats [30, 500, 10, 500, 20] 150 500) = 30 \<and>
   stdDev (updateStats [30, 500, 10, 500, 20] 150 500) = sqrt (200 / 3) \<and>
   filter (\<lambda>t. t \<noteq> 500) [500, 500::real] = [] \<and>
   avgTime (updateStats [500, 500] 150 500) = 0 \<and>
   stdDev (updateStats [500, 500] 150 500) = 0"
  using basic_statistics [of 500 "[30, 500, 10, 500, 20]" 150]
        basic_statistics [of 500 "[500, 500]" 150]
  by (simp add: Let_def power2_eq_square)

text \<open>
  C5. The percentage above the timeout is the number of valid samples with a latency
  strictly greater than the timeout, divided by the number of all samples, times 100; the
  percentage lost is the number of lost samples, divided by the number of all samples,
  times 100. Both are 0 for the empty series, by the test of line 405.
\<close>

theorem percentage_statistics:
  "(let st = updateStats tms W D; total = real (length tms) in
     (tms \<noteq> [] \<longrightarrow>
        percentageGreaterThanTimeout st =
          real (length (filter (\<lambda>t. t \<noteq> D \<and> t > real_of_int W) tms)) / total * 100 \<and>
        percentageLost st = real (length (filter (\<lambda>t. t = D) tms)) / total * 100) \<and>
     (tms = [] \<longrightarrow> percentageGreaterThanTimeout st = 0 \<and> percentageLost st = 0))"
proof -
  have "(\<lambda>t. real_of_int W < t \<and> t \<noteq> D) = (\<lambda>t. t \<noteq> D \<and> real_of_int W < t)" by auto
  then show ?thesis
    by (simp add: Let_def updateStats_percentages count_loop_filter)
qed

theorem percentage_statistics_witness:
  "[151, 500, 150, 200, 500, 500, 20, 3::real] \<noteq> [] \<and>
   percentageGreaterThanTimeout (updateStats [151, 500, 150, 200, 500, 500, 20, 3] 150 500) = 25 \<and>
   percentageLost (updateStats [151, 500, 150, 200, 500, 500, 20, 3] 150 500) = 75 / 2 \<and>
   percentageLost (updateStats [] 150 500) = 0"
  using percentage_statistics [of "[151, 500, 150, 200, 500, 500, 20, 3]" 150 500]
        percentage_statistics [of "[]" 150 500]
  by (simp add: Let_def)

lemma validTimes_drop_sentinel: "validTimes (xs @ D # ys) D = validTimes (xs @ ys) D"
  by (simp add: validTimes_filter)

lemma count_loop_sentinel:
  "snd (count_loop (xs @ D # ys) W D) = Suc (snd (count_loop (xs @ ys) W D))"
  by (simp add: count_loop_filter)

text \<open>
  C6. \<open>updateStats\<close> tells a valid sample from a lost one only by comparing it with the
  \<open>deadTimeout\<close> value: the valid samples are those that differ from it, the lost ones
  those that equal it. So a measured round trip of exactly \<open>deadTimeout\<close> milliseconds
  leaves the engine in the state a timeout would, and a sample of that value anywhere in a
  series is left out of the valid samples, and so of the average, minimum, maximum, standard
  deviation and jitter, and adds one to the lost count and to the numerator of the lost
  percentage.
\<close>

theorem sentinel_decides_validity:
  "validTimes tms D = filter (\<lambda>t. t \<noteq> D) tms \<and>
   timesLost (updateStats tms W D) = length (filter (\<lambda>t. t = D) tms) \<and>
   (real_of_int (Milliseconds d) = D \<longrightarrow>
      cycle W D i (EchoReply d) s = cycle W D i ReadTimeout s) \<and>
   (let with_it = updateStats (xs @ D # ys) W D; without = updateStats (xs @ ys) W D in
      validTimes (xs @ D # ys) D = validTimes (xs @ ys) D \<and>
      avgTime with_it = avgTime without \<and>
      minTime with_it = minTime without \<and>
      maxTime with_it = maxTime without \<and>
      stdDev with_it = stdDev without \<and>
      jitter with_it = jitter without \<and>
      timesLost with_it = Suc (timesLost without) \<and>
      percentageLost with_it =
        real (Suc (timesLost without)) / real (Suc (length (xs @ ys))) * 100)"
proof -
  have valid: "validTimes tms D = filter (\<lambda>t. t \<noteq> D) tms"
    by (rule validTimes_filter)
  have lost: "timesLost (updateStats tms W D) = length (filter (\<lambda>t. t = D) tms)"
    by (simp add: updateStats_percentages count_loop_filter)
  have same: "cycle W D i (EchoReply d) s = cycle W D i ReadTimeout s"
    if "real_of_int (Milliseconds d) = D"
    using that by (simp add: cycle_def)
  let ?a = "updateStats (xs @ D # ys) W D" and ?b = "updateStats (xs @ ys) W D"
  have v: "validTimes (xs @ D # ys) D = validTimes (xs @ ys) D"
    by (rule validTimes_drop_sentinel)
  have avg: "avgTime ?a = avgTime ?b" by (simp only: updateStats_avgTime v)
  have mn: "minTime ?a = minTime ?b" by (simp only: updateStats_minTime v)
  have mx: "maxTime ?a = maxTime ?b" by (simp only: updateStats_maxTime v)
  have sd: "stdDev ?a = stdDev ?b" by (simp only: updateStats_stdDev v)
  have jit: "jitter ?a = jitter ?b" by (simp only: updateStats_jitter v)
  have tl: "timesLost ?a = Suc (timesLost ?b)"
    by (simp only: updateStats_percentages count_loop_sentinel)
  have pl: "percentageLost ?a = real (Suc (timesLost ?b)) / real (Suc (length (xs @ ys))) * 100"
    by (simp add: updateStats_percentages count_loop_sentinel)
  from valid lost same v avg mn mx sd jit tl pl show ?thesis
    by (simp only: Let_def) blast
qed

theorem sentinel_decides_validity_witness:
  "real_of_int (Milliseconds 500000000) = 500 \<and>
   e_times (snd (cycle 150 500 (1 / 10) (EchoReply 500000000) init_engine)) = [500] \<and>
   cycle 150 500 (1 / 10) (EchoReply 500000000) init_engine =
     cycle 150 500 (1 / 10) ReadTimeout init_engine \<and>
   validTimes [20, 500, 40] 500 = [20, 40] \<and>
   avgTime (updateStats [20, 500, 40] 150 500) = 30 \<and>
   timesLost (updateStats [20, 500, 40] 150 500) = 1 \<and>
   percentageLost (updateStats [20, 500, 40] 150 500) = 100 / 3"
  using sentinel_decides_validity [of "[20, 500, 40]" 500 150 500000000 "1 / 10" init_engine "[20]" "[40]"]
  by (simp add: Let_def Milliseconds_def signed_divide_int_def cycle_def record_sample_def
      sleep_def init_engine_def updateStats_avgTime updateStats_percentages validTimes_def
      sum_loop_def count_loop_def)

subsection \<open>The engine and the startup check\<close>

lemma ping_loop_times_nth:
  assumes "running s" "MarshalError \<notin> set ocs" "k < length ocs"
  shows "e_times (ping_loop W D i ocs s) ! (length (e_times s) + k) =
           (case ocs ! k of EchoReply d \<Rightarrow> real_of_int (Milliseconds d) | _ \<Rightarrow> D)"
proof -
  from assms(2) have "completed ocs = ocs"
    unfolding completed_def takeWhile_eq_all_conv by blast
  with ping_loop_times [OF assms(1), of W D i ocs] assms(3) show ?thesis
    by (simp add: nth_append)
qed

lemma sint_pingCounts:
  "N < 2 ^ 63 \<Longrightarrow>
     map sint (map (\<lambda>k. 0 + word_of_nat k :: 64 word) [1..<Suc N]) = map int [1..<Suc N]"
proof -
  assume N: "N < 2 ^ 63"
  have "sint (word_of_nat k :: 64 word) = int k" if "k \<in> set [1..<Suc N]" for k
  proof -
    from that have "k \<le> N" by (simp del: upt_Suc)
    from this N have "k < 2 ^ 63" by (rule le_less_trans)
    then show ?thesis by (rule sint_word_of_nat_64)
  qed
  then show ?thesis by (simp del: upt_Suc)
qed

text \<open>
  C1. Every cycle that is not cut short by a marshalling error, whatever its outcome
  (an echo reply, a failed send, a timeout, another receive error, a reply that does not
  parse, a reply of another type), appends one entry to \<open>times\<close> and the cycle's value of
  \<open>pingCount\<close> to \<open>pings\<close>. After \<open>N\<close> completed cycles, started from the initial values
  of \<open>main\<close>, both lists have length \<open>N\<close> and \<open>pings\<close> holds 1, ..., \<open>N\<close> in this order.
  The bound on \<open>N\<close> is the range of the 64-bit counter, which no slice length exceeds.
\<close>

theorem one_sample_per_cycle:
  "(oc \<noteq> MarshalError \<longrightarrow>
      (\<exists>v. e_times (snd (cycle W D i oc s)) = e_times s @ [v]) \<and>
      pings (snd (cycle W D i oc s)) = pings s @ [pingCount s + 1]) \<and>
   (length (completed ocs) < 2 ^ 63 \<longrightarrow>
      (let s' = ping W D i True ocs init_engine; N = length (completed ocs) in
         length (e_times s') = N \<and> length (pings s') = N \<and>
         map sint (pings s') = map int [1..<Suc N]))"
proof
  show "oc \<noteq> MarshalError \<longrightarrow>
      (\<exists>v. e_times (snd (cycle W D i oc s)) = e_times s @ [v]) \<and>
      pings (snd (cycle W D i oc s)) = pings s @ [pingCount s + 1]"
    by (simp add: cycle_completes)
next
  let ?s' = "ping W D i True ocs init_engine"
  let ?N = "length (completed ocs)"
  have run: "running init_engine" by (simp add: init_engine_def)
  have s': "?s' = ping_loop W D i ocs init_engine" by (simp add: ping_def)
  have t: "length (e_times ?s') = ?N"
    unfolding s' by (simp add: ping_loop_times [OF run]) (simp add: init_engine_def)
  have p: "pings ?s' = map (\<lambda>k. 0 + word_of_nat k) [1..<Suc ?N]"
    unfolding s' by (simp only: ping_loop_pings [OF run]) (simp add: init_engine_def)
  have pl: "length (pings ?s') = ?N"
    unfolding p by (simp del: upt_Suc)
  have ps: "map sint (pings ?s') = map int [1..<Suc ?N]" if "?N < 2 ^ 63"
    unfolding p using that by (rule sint_pingCounts)
  from t pl ps
  show "length (completed ocs) < 2 ^ 63 \<longrightarrow>
      (let s' = ping W D i True ocs init_engine; N = length (completed ocs) in
         length (e_times s') = N \<and> length (pings s') = N \<and>
         map sint (pings s') = map int [1..<Suc N])"
    by (simp only: Let_def) blast
qed

theorem one_sample_per_cycle_witness:
  "completed [EchoReply 12000000, SendError, ReadTimeout, ReadError, ParseError, NonEchoReply] =
     [EchoReply 12000000, SendError, ReadTimeout, ReadError, ParseError, NonEchoReply] \<and>
   length (completed
     [EchoReply 12000000, SendError, ReadTimeout, ReadError, ParseError, NonEchoReply])
     < 2 ^ 63 \<and>
   length (e_times (ping 150 500 (1 / 10) True
     [EchoReply 12000000, SendError, ReadTimeout, ReadError, ParseError, NonEchoReply]
     init_engine)) = 6 \<and>
   map sint (pings (ping 150 500 (1 / 10) True
     [EchoReply 12000000, SendError, ReadTimeout, ReadError, ParseError, NonEchoReply]
     init_engine)) = [1, 2, 3, 4, 5, 6]"
  using one_sample_per_cycle [of SendError 150 500 "1 / 10" init_engine
      "[EchoReply 12000000, SendError, ReadTimeout, ReadError, ParseError, NonEchoReply]"]
  by (simp add: completed_def Let_def upt_conv_Cons del: upt_Suc)

lemma Milliseconds_whole:
  "0 \<le> d \<Longrightarrow> Milliseconds d * 1000000 \<le> d \<and> d < (Milliseconds d + 1) * 1000000"
proof -
  assume "0 \<le> d"
  then have "Milliseconds d = d div 1000000"
    by (simp add: Milliseconds_def signed_divide_int_def sgn_if)
  moreover have "d div 1000000 * 1000000 \<le> d \<and> d < (d div 1000000 + 1) * 1000000"
    by presburger
  ultimately show ?thesis by simp
qed

text \<open>
  C7. When a reply has been received: a reply that does not parse and a reply that is not an
  echo reply record the \<open>deadTimeout\<close> value; an echo reply records the time from send to
  receipt, \<open>d\<close> nanoseconds, as \<open>d\<close> divided by 1000000 with the fraction dropped: the whole
  number \<open>m\<close> of milliseconds with \<open>m * 1000000 \<le> d < (m + 1) * 1000000\<close>. It does so for
  every \<open>d\<close>, also above the timeout, and never records the \<open>deadTimeout\<close> value in its
  place. This holds for one cycle and for the sample at the position of that cycle in the
  series.
\<close>

theorem classify_reply:
  "e_times (snd (cycle W D i ParseError s)) = e_times s @ [D] \<and>
   e_times (snd (cycle W D i NonEchoReply s)) = e_times s @ [D] \<and>
   e_times (snd (cycle W D i (EchoReply d) s)) = e_times s @ [real_of_int (d sdiv 1000000)] \<and>
   (0 \<le> d \<longrightarrow>
      (\<exists>m. e_times (snd (cycle W D i (EchoReply d) s)) = e_times s @ [real_of_int m] \<and>
           m * 1000000 \<le> d \<and> d < (m + 1) * 1000000)) \<and>
   (MarshalError \<notin> set ocs \<longrightarrow> k < length ocs \<longrightarrow>
      (let s' = ping W D i True ocs init_engine in
         (ocs ! k = ParseError \<or> ocs ! k = NonEchoReply \<longrightarrow> e_times s' ! k = D) \<and>
         (ocs ! k = EchoReply d \<longrightarrow> e_times s' ! k = real_of_int (d sdiv 1000000))))"
proof -
  have one: "e_times (snd (cycle W D i ParseError s)) = e_times s @ [D]"
    "e_times (snd (cycle W D i NonEchoReply s)) = e_times s @ [D]"
    "e_times (snd (cycle W D i (EchoReply d) s)) = e_times s @ [real_of_int (d sdiv 1000000)]"
    by (simp_all add: cycle_completes Milliseconds_def)
  have whole: "\<exists>m. e_times (snd (cycle W D i (EchoReply d) s)) = e_times s @ [real_of_int m] \<and>
           m * 1000000 \<le> d \<and> d < (m + 1) * 1000000"
    if "0 \<le> d"
  proof -
    have "e_times (snd (cycle W D i (EchoReply d) s)) = e_times s @ [real_of_int (Milliseconds d)]"
      by (simp add: cycle_completes)
    with Milliseconds_whole [OF that] show ?thesis by blast
  qed
  have trace:
    "(ocs ! k = ParseError \<or> ocs ! k = NonEchoReply \<longrightarrow>
         e_times (ping W D i True ocs init_engine) ! k = D) \<and>
     (ocs ! k = EchoReply d \<longrightarrow>
         e_times (ping W D i True ocs init_engine) ! k = real_of_int (d sdiv 1000000))"
    if "MarshalError \<notin> set ocs" "k < length ocs"
  proof -
    have run: "running init_engine" by (simp add: init_engine_def)
    from ping_loop_times_nth [OF run that, of W D i]
    have "e_times (ping W D i True ocs init_engine) ! k =
            (case ocs ! k of EchoReply d \<Rightarrow> real_of_int (Milliseconds d) | _ \<Rightarrow> D)"
      by (simp add: ping_def init_engine_def)
    then show ?thesis by (auto simp: Milliseconds_def)
  qed
  from one whole trace show ?thesis by (simp only: Let_def) blast
qed

theorem classify_reply_witness:
  "MarshalError \<notin> set [ParseError, EchoReply 200999999, NonEchoReply, EchoReply 3000000] \<and>
   3 < length [ParseError, EchoReply 200999999, NonEchoReply, EchoReply 3000000] \<and>
   (0::int) \<le> 200999999 \<and> (200999999::int) sdiv 1000000 = 200 \<and>
   real_of_int 150 < real_of_int (200999999 sdiv 1000000) \<and>
   e_times (ping 150 500 (1 / 10) True
      [ParseError, EchoReply 200999999, NonEchoReply, EchoReply 3000000] init_engine) ! 0 = 500 \<and>
   e_times (ping 150 500 (1 / 10) True
      [ParseError, EchoReply 200999999, NonEchoReply, EchoReply 3000000] init_engine) ! 1 = 200 \<and>
   e_times (ping 150 500 (1 / 10) True
      [ParseError, EchoReply 200999999, NonEchoReply, EchoReply 3000000] init_engine) ! 2 = 500 \<and>
   e_times (ping 150 500 (1 / 10) True
      [ParseError, EchoReply 200999999, NonEchoReply, EchoReply 3000000] init_engine) ! 3 = 3"
proof -
  let ?ocs = "[ParseError, EchoReply 200999999, NonEchoReply, EchoReply 3000000]"
  have div: "(200999999::int) sdiv 1000000 = 200" "(3000000::int) sdiv 1000000 = 3"
    by (simp_all add: signed_divide_int_def)
  from classify_reply [where W = 150 and D = 500 and i = "1 / 10" and s = init_engine
      and d = 200999999 and ocs = ?ocs and k = 0]
    classify_reply [where W = 150 and D = 500 and i = "1 / 10" and s = init_engine
      and d = 200999999 and ocs = ?ocs and k = 1]
    classify_reply [where W = 150 and D = 500 and i = "1 / 10" and s = init_engine
      and d = 200999999 and ocs = ?ocs and k = 2]
    classify_reply [where W = 150 and D = 500 and i = "1 / 10" and s = init_engine
      and d = 3000000 and ocs = ?ocs and k = 3]
  show ?thesis by (simp add: Let_def div)
qed

text \<open>
  C9. A failed send records the \<open>deadTimeout\<close> value, sleeps for the interval and goes on
  with the next cycle, the flag still set. When the socket cannot be opened \<open>ping\<close> clears
  the flag and returns, and so does a cycle whose message cannot be marshalled. No other
  outcome of a cycle leaves the loop or clears the flag: after a trace of cycles the flag is
  still set exactly when the socket was opened and no marshalling failed, and every
  completed cycle has slept once, for the interval.
\<close>

theorem engine_stopping_conditions:
  "cycle W D i SendError s =
     (Continue, s\<lparr> pingCount := pingCount s + 1, e_times := e_times s @ [D],
                   pings := pings s @ [pingCount s + 1], sleeps := sleeps s @ [i],
                   accesses := accesses s @
                     [Lock, Read Times, Write Times, Read Pings, Write Pings, Unlock] \<rparr>) \<and>
   (running s \<longrightarrow>
      (let s' = ping_loop W D i [SendError] s in
         running s' \<and> e_times s' = e_times s @ [D] \<and> sleeps s' = sleeps s @ [i] \<and>
         ping_loop W D i (SendError # ocs) s = ping_loop W D i ocs s')) \<and>
   ping W D i False ocs s = s\<lparr> running := False, accesses := accesses s @ [Write Running] \<rparr> \<and>
   cycle W D i MarshalError s =
     (Return, s\<lparr> pingCount := pingCount s + 1, running := False,
                 accesses := accesses s @ [Write Running] \<rparr>) \<and>
   (running s \<longrightarrow>
      ping W D i True (MarshalError # ocs) s =
        s\<lparr> pingCount := pingCount s + 1, running := False,
           accesses := accesses s @ [Read Running, Write Running] \<rparr>) \<and>
   (running s \<longrightarrow> oc \<noteq> MarshalError \<longrightarrow>
      fst (cycle W D i oc s) = Continue \<and> running (snd (cycle W D i oc s))) \<and>
   (running s \<longrightarrow>
      (running (ping W D i listen_ok ocs s) \<longleftrightarrow> listen_ok \<and> MarshalError \<notin> set ocs) \<and>
      sleeps (ping W D i True ocs s) = sleeps s @ replicate (length (completed ocs)) i)"
proof -
  have a: "cycle W D i SendError s =
     (Continue, s\<lparr> pingCount := pingCount s + 1, e_times := e_times s @ [D],
                   pings := pings s @ [pingCount s + 1], sleeps := sleeps s @ [i],
                   accesses := accesses s @
                     [Lock, Read Times, Write Times, Read Pings, Write Pings, Unlock] \<rparr>)"
    by (simp add: cycle_completes)
  have b: "let s' = ping_loop W D i [SendError] s in
         running s' \<and> e_times s' = e_times s @ [D] \<and> sleeps s' = sleeps s @ [i] \<and>
         ping_loop W D i (SendError # ocs) s = ping_loop W D i ocs s'"
    if "running s"
    using that by (simp add: cycle_completes Let_def)
  have c: "ping W D i False ocs s =
      s\<lparr> running := False, accesses := accesses s @ [Write Running] \<rparr>"
    by (simp add: ping_def)
  have d: "cycle W D i MarshalError s =
      (Return, s\<lparr> pingCount := pingCount s + 1, running := False,
                  accesses := accesses s @ [Write Running] \<rparr>)"
    by (rule cycle_marshal)
  have e: "ping W D i True (MarshalError # ocs) s =
      s\<lparr> pingCount := pingCount s + 1, running := False,
         accesses := accesses s @ [Read Running, Write Running] \<rparr>"
    if "running s"
    using that by (simp add: ping_def cycle_marshal)
  have f: "fst (cycle W D i oc s) = Continue \<and> running (snd (cycle W D i oc s))"
    if "running s" "oc \<noteq> MarshalError"
    using that by (simp add: cycle_completes)
  have g: "running (ping W D i listen_ok ocs s) \<longleftrightarrow> listen_ok \<and> MarshalError \<notin> set ocs"
    if "running s"
    using ping_loop_running [OF that, of W D i ocs] by (simp add: ping_def)
  have h: "sleeps (ping W D i True ocs s) = sleeps s @ replicate (length (completed ocs)) i"
    if "running s"
    using ping_loop_sleeps [OF that, of W D i ocs] by (simp add: ping_def)
  from a b c d e f g h show ?thesis by blast
qed

theorem engine_stopping_conditions_witness:
  "running init_engine \<and>
   running (ping 150 500 (1 / 10) True [SendError, SendError, ReadTimeout] init_engine) \<and>
   e_times (ping 150 500 (1 / 10) True [SendError, SendError, ReadTimeout] init_engine)
     = [500, 500, 500] \<and>
   sleeps (ping 150 500 (1 / 10) True [SendError, SendError, ReadTimeout] init_engine)
     = [1 / 10, 1 / 10, 1 / 10] \<and>
   \<not> running (ping 150 500 (1 / 10) True [SendError, MarshalError, ReadTimeout] init_engine) \<and>
   e_times (ping 150 500 (1 / 10) True [SendError, MarshalError, ReadTimeout] init_engine)
     = [500] \<and>
   \<not> running (ping 150 500 (1 / 10) False [SendError] init_engine)"
proof -
  have run: "running init_engine" by (simp add: init_engine_def)
  from engine_stopping_conditions [where W = 150 and D = 500 and i = "1 / 10"
      and s = init_engine and ocs = "[SendError, SendError, ReadTimeout]"
      and oc = SendError and listen_ok = True] run
  have "running (ping 150 500 (1 / 10) True [SendError, SendError, ReadTimeout] init_engine)"
    by simp
  then show ?thesis
    by (simp add: ping_def cycle_def record_sample_def sleep_def init_engine_def)
qed

lemma shift_of_small: "a < 2 ^ 53 \<Longrightarrow> shift_of a = 0"
  by (subst shift_of.simps) simp

lemma float64_of_int_small: "\<bar>k\<bar> < 2 ^ 53 \<Longrightarrow> float64_of_int k = real_of_int k"
proof -
  assume "\<bar>k\<bar> < 2 ^ 53"
  then have "shift_of \<bar>k\<bar> = 0" by (rule shift_of_small)
  then show ?thesis by (simp add: float64_of_int_def sgn_if)
qed

lemma shift_of_2_53: "shift_of 9007199254740992 = 1"
  by (subst shift_of.simps) (simp add: shift_of_small)

lemma float64_of_int_exact: "\<bar>k\<bar> \<le> 2 ^ 53 \<Longrightarrow> float64_of_int k = real_of_int k"
proof -
  assume "\<bar>k\<bar> \<le> 2 ^ 53"
  then consider "\<bar>k\<bar> < 2 ^ 53" | "k = 2 ^ 53" | "k = - (2 ^ 53)" by linarith
  then show ?thesis
  proof cases
    case 1
    then show ?thesis by (rule float64_of_int_small)
  next
    case 2
    then show ?thesis by (simp add: float64_of_int_def shift_of_2_53 Let_def)
  next
    case 3
    then show ?thesis by (simp add: float64_of_int_def shift_of_2_53 Let_def)
  qed
qed

lemma float64_of_int_tie: "float64_of_int (- 9007199254740995) = - 9007199254740996"
proof -
  have "shift_of 9007199254740995 = 1"
    by (subst shift_of.simps) (simp add: shift_of_small)
  then show ?thesis by (simp add: float64_of_int_def)
qed

text \<open>
  C8, as amended. The check of lines 39-42 compares \<open>deadTimeout\<close> with 10000 and with
  \<open>float64(timeout)\<close>, the timeout rounded to the nearest \<open>float64\<close>, which is the timeout
  itself when its magnitude is at most \<open>2 ^ 53\<close>. Whenever \<open>deadTimeout\<close> is above 10000 or
  below \<open>float64(timeout)\<close>, \<open>main\<close> exits with status 1 and the probe activity is not
  started. With a host argument, \<open>main\<close> exits through this check exactly in that case;
  with a host argument that resolves, it exits in no other case and otherwise starts
  probing. Without a host argument, and with a host that does not resolve, it exits with
  status 1 as well. With a timeout of 150, the values 100 and 20000 are rejected and 500
  is accepted.
\<close>

theorem dead_timeout_check:
  "(D > 10000 \<or> D < float64_of_int W \<longrightarrow> (\<exists>m. main_startup args W D resolve = Exit m 1)) \<and>
   (args \<noteq> [] \<longrightarrow>
      (main_startup args W D resolve = Exit DeadTimeoutOutOfRange 1
         \<longleftrightarrow> D > 10000 \<or> D < float64_of_int W)) \<and>
   (args \<noteq> [] \<longrightarrow> resolve (args ! 0) = Some a \<longrightarrow>
      ((\<exists>m c. main_startup args W D resolve = Exit m c)
         \<longleftrightarrow> D > 10000 \<or> D < float64_of_int W) \<and>
      (main_startup args W D resolve = Probing a
         \<longleftrightarrow> \<not> (D > 10000 \<or> D < float64_of_int W))) \<and>
   (args = [] \<longrightarrow> main_startup args W D resolve = Exit Usage 1) \<and>
   (args \<noteq> [] \<longrightarrow> \<not> (D > 10000 \<or> D < float64_of_int W) \<longrightarrow> resolve (args ! 0) = None \<longrightarrow>
      main_startup args W D resolve = Exit CouldNotResolve 1) \<and>
   (\<bar>W\<bar> \<le> 2 ^ 53 \<longrightarrow> float64_of_int W = real_of_int W) \<and>
   main_startup (host # rest) 150 100 resolve = Exit DeadTimeoutOutOfRange 1 \<and>
   main_startup (host # rest) 150 20000 resolve = Exit DeadTimeoutOutOfRange 1 \<and>
   (resolve host = Some a \<longrightarrow> main_startup (host # rest) 150 500 resolve = Probing a)"
proof -
  have refuses: "\<exists>m. main_startup args W D resolve = Exit m 1"
    if "D > 10000 \<or> D < float64_of_int W"
    using that by (cases args) (auto simp: main_startup_def)
  have through: "main_startup args W D resolve = Exit DeadTimeoutOutOfRange 1
         \<longleftrightarrow> D > 10000 \<or> D < float64_of_int W"
    if "args \<noteq> []"
    using that by (cases args) (auto simp: main_startup_def split: option.splits)
  have only: "((\<exists>m c. main_startup args W D resolve = Exit m c)
         \<longleftrightarrow> D > 10000 \<or> D < float64_of_int W) \<and>
      (main_startup args W D resolve = Probing a
         \<longleftrightarrow> \<not> (D > 10000 \<or> D < float64_of_int W))"
    if "args \<noteq> []" "resolve (args ! 0) = Some a"
    using that by (cases args) (auto simp: main_startup_def)
  have usage: "main_startup args W D resolve = Exit Usage 1" if "args = []"
    using that by (simp add: main_startup_def)
  have unresolved: "main_startup args W D resolve = Exit CouldNotResolve 1"
    if "args \<noteq> []" "\<not> (D > 10000 \<or> D < float64_of_int W)" "resolve (args ! 0) = None"
    using that by (cases args) (auto simp: main_startup_def)
  have exact: "float64_of_int W = real_of_int W" if "\<bar>W\<bar> \<le> 2 ^ 53"
    using that by (rule float64_of_int_exact)
  have f150: "float64_of_int 150 = 150"
    using float64_of_int_small [of 150] by simp
  have examples:
    "main_startup (host # rest) 150 100 resolve = Exit DeadTimeoutOutOfRange 1"
    "main_startup (host # rest) 150 20000 resolve = Exit DeadTimeoutOutOfRange 1"
    "resolve host = Some a \<longrightarrow> main_startup (host # rest) 150 500 resolve = Probing a"
    by (simp_all add: main_startup_def f150)
  from refuses through only usage unresolved exact examples show ?thesis by blast
qed

theorem dead_timeout_check_witness:
  "[''example.org''] \<noteq> [] \<and> \<bar>150::int\<bar> \<le> 2 ^ 53 \<and>
   main_startup [''example.org''] 150 100 (\<lambda>h. Some ''192.0.2.1'')
     = Exit DeadTimeoutOutOfRange 1 \<and>
   main_startup [''example.org''] 150 20000 (\<lambda>h. Some ''192.0.2.1'')
     = Exit DeadTimeoutOutOfRange 1 \<and>
   main_startup [''example.org''] 150 500 (\<lambda>h. Some ''192.0.2.1'') = Probing ''192.0.2.1'' \<and>
   main_startup [''example.org''] 150 150 (\<lambda>h. Some ''192.0.2.1'') = Probing ''192.0.2.1'' \<and>
   main_startup [''example.org''] 150 10000 (\<lambda>h. Some ''192.0.2.1'') = Probing ''192.0.2.1'' \<and>
   main_startup [''example.org''] 150 (1499 / 10) (\<lambda>h. Some ''192.0.2.1'')
     = Exit DeadTimeoutOutOfRange 1 \<and>
   main_startup [''example.org''] 150 500 (\<lambda>h. None) = Exit CouldNotResolve 1"
  using dead_timeout_check [where D = 100 and W = 150 and args = "[''example.org'']"
      and resolve = "\<lambda>h. Some ''192.0.2.1''" and a = "''192.0.2.1''"
      and host = "''example.org''" and rest = "[]"]
    dead_timeout_check [where D = 150 and W = 150 and args = "[''example.org'']"
      and resolve = "\<lambda>h. Some ''192.0.2.1''" and a = "''192.0.2.1''"
      and host = "''example.org''" and rest = "[]"]
    dead_timeout_check [where D = 10000 and W = 150 and args = "[''example.org'']"
      and resolve = "\<lambda>h. Some ''192.0.2.1''" and a = "''192.0.2.1''"
      and host = "''example.org''" and rest = "[]"]
    dead_timeout_check [where D = "1499 / 10" and W = 150 and args = "[''example.org'']"
      and resolve = "\<lambda>h. Some ''192.0.2.1''" and a = "''192.0.2.1''"
      and host = "''example.org''" and rest = "[]"]
    dead_timeout_check [where D = 500 and W = 150 and args = "[''example.org'']"
      and resolve = "\<lambda>h. None" and a = "''192.0.2.1''"
      and host = "''example.org''" and rest = "[]"]
  by simp

text \<open>
  C8 as the specification has it, a refusal exactly when \<open>deadTimeout\<close> is above 10000 or
  below the timeout, fails in two ways. With \<open>-W -9007199254740995\<close> and
  \<open>-D -9007199254740996\<close> the value is below the timeout, but \<open>float64(timeout)\<close> is the
  value itself and \<open>main\<close> starts probing. With 150 and 500, in range, \<open>main\<close> still exits
  with status 1 when there is no host argument.
\<close>

theorem dead_timeout_check_counterexample:
  "(- 9007199254740996 :: real) < real_of_int (- 9007199254740995) \<and>
   main_startup [''example.org''] (- 9007199254740995) (- 9007199254740996)
     (\<lambda>h. Some ''192.0.2.1'') = Probing ''192.0.2.1'' \<and>
   \<not> ((500 :: real) > 10000 \<or> 500 < real_of_int 150) \<and>
   main_startup [] 150 500 (\<lambda>h. Some ''192.0.2.1'') = Exit Usage 1"
  by (simp add: main_startup_def float64_of_int_tie)

subsection \<open>The mutex\<close>

lemma series_simps: "series Times" "series Pings" "\<not> series Running"
  "\<not> flag Times" "\<not> flag Pings" "flag Running"
  "series_or_flag Times" "series_or_flag Pings" "series_or_flag Running"
  by (simp_all add: series_def flag_def series_or_flag_def)

lemma guarded_append:
  "guarded P h (as @ bs) \<longleftrightarrow> guarded P h as \<and> guarded P (held_after h as) bs"
  by (induction P h as rule: guarded.induct) simp_all

lemma held_after_append:
  "held_after h (as @ bs) = held_after (held_after h as) bs"
  by (induction h as rule: held_after.induct) simp_all

lemma ping_loop_guarded:
  "guarded series False (accesses s) \<Longrightarrow> \<not> held_after False (accesses s) \<Longrightarrow>
     guarded series False (accesses (ping_loop W D i ocs s)) \<and>
     \<not> held_after False (accesses (ping_loop W D i ocs s))"
proof (induction ocs arbitrary: s)
  case Nil
  then show ?case by simp
next
  case (Cons oc ocs)
  let ?s = "s\<lparr> accesses := accesses s @ [Read Running] \<rparr>"
  from Cons.prems have head: "guarded series False (accesses ?s)" "\<not> held_after False (accesses ?s)"
    by (simp_all add: guarded_append held_after_append series_simps)
  show ?case
  proof (cases "running s")
    case False
    with head show ?thesis by simp
  next
    case True
    show ?thesis
    proof (cases "oc = MarshalError")
      case True
      with \<open>running s\<close> Cons.prems show ?thesis
        by (simp add: cycle_marshal guarded_append held_after_append series_simps)
    next
      case False
      let ?s' = "snd (cycle W D i oc ?s)"
      from head False have "guarded series False (accesses ?s')" "\<not> held_after False (accesses ?s')"
        by (simp_all add: cycle_completes guarded_append held_after_append series_simps)
      then have "guarded series False (accesses (ping_loop W D i ocs ?s')) \<and>
          \<not> held_after False (accesses (ping_loop W D i ocs ?s'))"
        by (rule Cons.IH)
      with ping_loop_step [OF True False, of W D i ocs] show ?thesis by simp
    qed
  qed
qed

lemma ping_loop_flag_unguarded:
  "ocs \<noteq> [] \<Longrightarrow> \<not> held_after False (accesses s) \<Longrightarrow>
     \<exists>rest. accesses (ping_loop W D i ocs s) = accesses s @ Read Running # rest"
proof (induction ocs arbitrary: s)
  case Nil
  then show ?case by simp
next
  case (Cons oc ocs)
  let ?s = "s\<lparr> accesses := accesses s @ [Read Running] \<rparr>"
  show ?case
  proof (cases "running s")
    case False
    then show ?thesis by simp
  next
    case True
    show ?thesis
    proof (cases "oc = MarshalError")
      case True
      with \<open>running s\<close> show ?thesis by (simp add: cycle_marshal)
    next
      case False
      let ?s' = "snd (cycle W D i oc ?s)"
      have acc: "accesses ?s' = accesses s @ Read Running #
          [Lock, Read Times, Write Times, Read Pings, Write Pings, Unlock]"
        using False by (simp add: cycle_completes)
      show ?thesis
      proof (cases ocs)
        case Nil
        with ping_loop_step [OF True False, of W D i ocs] acc show ?thesis by simp
      next
        case (Cons oc' ocs')
        then have ne: "ocs \<noteq> []" by simp
        from Cons.prems(2) acc have "\<not> held_after False (accesses ?s')"
          by (simp add: held_after_append)
        from Cons.IH [OF ne this] acc ping_loop_step [OF True False, of W D i ocs]
        show ?thesis by auto
      qed
    qed
  qed
qed

lemma guarded_flag_read:
  "\<not> held_after False as \<Longrightarrow> \<not> guarded flag False (as @ Read Running # rest)"
  by (simp add: guarded_append series_simps)

lemma ping_loop_times_prefix:
  assumes "running s"
  shows "prefix (e_times (ping_loop W D i ocs s)) (e_times (ping_loop W D i (ocs @ ocs') s))"
proof -
  have "prefix (completed ocs) (completed (ocs @ ocs'))"
    unfolding completed_def by (rule prefix_takeWhile) simp
  then show ?thesis
    by (simp add: ping_loop_times [OF assms] map_mono_prefix)
qed

lemma ping_loop_pings_prefix:
  assumes "running s"
  shows "prefix (pings (ping_loop W D i ocs s)) (pings (ping_loop W D i (ocs @ ocs') s))"
proof -
  have "prefix (completed ocs) (completed (ocs @ ocs'))"
    unfolding completed_def by (rule prefix_takeWhile) simp
  then have "length (completed ocs) \<le> length (completed (ocs @ ocs'))"
    by (rule prefix_length_le)
  then obtain j where j: "length (completed (ocs @ ocs')) = length (completed ocs) + j"
    using le_Suc_ex by blast
  have "[1..<Suc (length (completed ocs) + j)] =
          [1..<Suc (length (completed ocs))] @
          [Suc (length (completed ocs))..<Suc (length (completed ocs)) + j]"
    using upt_add_eq_append [of 1 "Suc (length (completed ocs))" j] by simp
  then have "prefix [1..<Suc (length (completed ocs))] [1..<Suc (length (completed (ocs @ ocs')))]"
    unfolding j by (metis prefixI)
  then show ?thesis
    by (simp only: ping_loop_pings [OF assms] same_prefix_prefix map_mono_prefix)
qed

text \<open>The accesses of the probe activity, cycle by cycle.\<close>

lemma ping_loop_accesses:
  "running s \<Longrightarrow>
     accesses (ping_loop W D i ocs s) =
       accesses s @
       concat (replicate (length (completed ocs))
         [Read Running, Lock, Read Times, Write Times, Read Pings, Write Pings, Unlock]) @
       (if MarshalError \<in> set ocs then [Read Running, Write Running] else [])"
proof (induction ocs arbitrary: s)
  case Nil
  show ?case by (simp add: completed_def)
next
  case (Cons oc ocs)
  show ?case
  proof (cases "oc = MarshalError")
    case True
    with Cons.prems show ?thesis by (simp add: completed_def cycle_marshal)
  next
    case False
    let ?s' = "snd (cycle W D i oc (s\<lparr> accesses := accesses s @ [Read Running] \<rparr>))"
    from Cons.prems False have run: "running ?s'" by (simp add: cycle_completes)
    from Cons.prems False have "ping_loop W D i (oc # ocs) s = ping_loop W D i ocs ?s'"
      by (rule ping_loop_step)
    with Cons.IH [OF run] False show ?thesis
      by (simp add: completed_def cycle_completes)
  qed
qed

lemma whole_when_free_cycles:
  "(\<And>k. whole_when_free False k k rest) \<Longrightarrow>
     whole_when_free False k k
       (concat (replicate n
          [Read Running, Lock, Read Times, Write Times, Read Pings, Write Pings, Unlock]) @ rest)"
  by (induction n arbitrary: k) simp_all

lemma count_writes_cycles:
  "length (filter (\<lambda>a. a = Write v)
     (concat (replicate n
        [Read Running, Lock, Read Times, Write Times, Read Pings, Write Pings, Unlock]) @ rest)) =
   (if series v then n else 0) + length (filter (\<lambda>a. a = Write v) rest)"
  by (induction n) (cases v; simp add: series_simps)+

text \<open>
  The calls of \<open>updateStats\<close> in the ticker branch read \<open>times\<close> after the mutex has been
  released.
\<close>

lemma render_tick_stats_read:
  "\<not> guarded series False (t_accesses (render_tick W D times_copy times_stats times_again))"
  by (simp add: render_tick_def Let_def series_simps)

text \<open>
  C10, as amended. In the probe activity a cycle that records a sample does it with the
  accesses \<open>Lock\<close>, read and write of \<open>times\<close>, read and write of \<open>pings\<close>, \<open>Unlock\<close>, in
  this order and with nothing else: both appends of a cycle are in one locked region. The
  accesses of a run are these, once per completed cycle after the test of the flag. So
  every read and write of the series is under the mutex, the mutex is released after any
  number of cycles, and at every point at which the probe activity does not hold the mutex
  \<open>times\<close> and \<open>pings\<close> have been appended to equally often: an activity that holds the
  mutex sees no sample of which only the latency has been recorded. The writes counted are
  the appends: their numbers are the lengths of the two lists, which are equal. Both lists
  only grow, the lists after more cycles extending those after fewer. The render loop
  takes its copy of the series under the same mutex. The running flag is not guarded: as
  soon as the probe activity has tested it (line 238) or cleared it (lines 231 and 266),
  it has accessed it without holding the mutex.
\<close>

theorem series_lock_discipline:
  "(oc \<noteq> MarshalError \<longrightarrow>
      accesses (snd (cycle W D i oc s)) =
        accesses s @ [Lock, Read Times, Write Times, Read Pings, Write Pings, Unlock]) \<and>
   accesses (ping W D i True ocs init_engine) =
     concat (replicate (length (completed ocs))
       [Read Running, Lock, Read Times, Write Times, Read Pings, Write Pings, Unlock]) @
     (if MarshalError \<in> set ocs then [Read Running, Write Running] else []) \<and>
   (let s' = ping W D i listen_ok ocs init_engine; log = accesses s' in
      guarded series False log \<and> \<not> held_after False log \<and>
      whole_when_free False 0 0 log \<and>
      length (filter (\<lambda>a. a = Write Times) log) = length (e_times s') \<and>
      length (filter (\<lambda>a. a = Write Pings) log) = length (pings s') \<and>
      length (e_times s') = length (pings s')) \<and>
   prefix (e_times (ping W D i True ocs init_engine))
          (e_times (ping W D i True (ocs @ ocs') init_engine)) \<and>
   prefix (pings (ping W D i True ocs init_engine))
          (pings (ping W D i True (ocs @ ocs') init_engine)) \<and>
   (let t = render_tick W D times_copy times_stats times_again in
      plotData t = times_copy \<and> take 3 (t_accesses t) = [Lock, Read Times, Unlock]) \<and>
   (ocs \<noteq> [] \<or> \<not> listen_ok \<longrightarrow>
      \<not> guarded flag False (accesses (ping W D i listen_ok ocs init_engine)))"
proof -
  let ?s' = "ping W D i listen_ok ocs init_engine"
  let ?cl = "[Read Running, Lock, Read Times, Write Times, Read Pings, Write Pings, Unlock]"
  let ?tl = "if MarshalError \<in> set ocs then [Read Running, Write Running] else []"
  let ?n = "length (completed ocs)"
  have run: "running init_engine" by (simp add: init_engine_def)
  have g0: "guarded series False (accesses init_engine)" "\<not> held_after False (accesses init_engine)"
    by (simp_all add: init_engine_def)
  have one: "accesses (snd (cycle W D i oc s)) =
        accesses s @ [Lock, Read Times, Write Times, Read Pings, Write Pings, Unlock]"
    if "oc \<noteq> MarshalError"
    using that by (simp add: cycle_completes)
  have log: "accesses (ping W D i True ocs init_engine) = concat (replicate ?n ?cl) @ ?tl"
    using ping_loop_accesses [OF run, of W D i ocs] by (simp add: ping_def init_engine_def)
  have a: "guarded series False (accesses ?s') \<and> \<not> held_after False (accesses ?s')"
  proof (cases listen_ok)
    case True
    with ping_loop_guarded [OF g0, of W D i ocs] show ?thesis by (simp add: ping_def)
  next
    case False
    then show ?thesis by (simp add: ping_def init_engine_def series_simps)
  qed
  have tl: "whole_when_free False k k ?tl" for k by simp
  have w: "whole_when_free False 0 0 (accesses ?s')"
  proof (cases listen_ok)
    case True
    have "whole_when_free False 0 0 (concat (replicate ?n ?cl) @ ?tl)"
      using tl by (rule whole_when_free_cycles)
    with log True show ?thesis by simp
  next
    case False
    then show ?thesis by (simp add: ping_def init_engine_def)
  qed
  have lens: "length (e_times ?s') = ?n \<and> length (pings ?s') = ?n" if listen_ok
    using that ping_loop_times [OF run, of W D i ocs] ping_loop_pings [OF run, of W D i ocs]
    by (simp add: ping_def init_engine_def del: upt_Suc)
  have ct: "length (filter (\<lambda>a. a = Write Times) (accesses ?s')) = length (e_times ?s')"
  proof (cases listen_ok)
    case True
    have "length (filter (\<lambda>a. a = Write Times) (concat (replicate ?n ?cl) @ ?tl)) = ?n"
      by (simp only: count_writes_cycles) (simp add: series_simps)
    with log lens True show ?thesis by simp
  next
    case False
    then show ?thesis by (simp add: ping_def init_engine_def)
  qed
  have cp: "length (filter (\<lambda>a. a = Write Pings) (accesses ?s')) = length (pings ?s')"
  proof (cases listen_ok)
    case True
    have "length (filter (\<lambda>a. a = Write Pings) (concat (replicate ?n ?cl) @ ?tl)) = ?n"
      by (simp only: count_writes_cycles) (simp add: series_simps)
    with log lens True show ?thesis by simp
  next
    case False
    then show ?thesis by (simp add: ping_def init_engine_def)
  qed
  have b: "length (e_times ?s') = length (pings ?s')"
  proof (cases listen_ok)
    case True
    with lens show ?thesis by simp
  next
    case False
    then show ?thesis by (simp add: ping_def init_engine_def)
  qed
  have c: "prefix (e_times (ping W D i True ocs init_engine))
          (e_times (ping W D i True (ocs @ ocs') init_engine))"
    using ping_loop_times_prefix [OF run, of W D i ocs ocs'] by (simp add: ping_def)
  have c': "prefix (pings (ping W D i True ocs init_engine))
          (pings (ping W D i True (ocs @ ocs') init_engine))"
    using ping_loop_pings_prefix [OF run, of W D i ocs ocs'] by (simp add: ping_def)
  have d: "plotData (render_tick W D times_copy times_stats times_again) = times_copy \<and>
      take 3 (t_accesses (render_tick W D times_copy times_stats times_again))
        = [Lock, Read Times, Unlock]"
    by (simp add: render_tick_def Let_def)
  have e: "\<not> guarded flag False (accesses ?s')" if "ocs \<noteq> [] \<or> \<not> listen_ok"
  proof (cases listen_ok)
    case True
    with that have "ocs \<noteq> []" by simp
    from ping_loop_flag_unguarded [OF this g0(2), of W D i]
    obtain rest where "accesses (ping_loop W D i ocs init_engine) =
        accesses init_engine @ Read Running # rest" by blast
    with guarded_flag_read [OF g0(2), of rest] True show ?thesis by (simp add: ping_def)
  next
    case False
    then show ?thesis by (simp add: ping_def init_engine_def series_simps)
  qed
  from one log a w ct cp b c c' d e show ?thesis by (simp only: Let_def) blast
qed

theorem series_lock_discipline_witness:
  "accesses (ping 150 500 (1 / 10) True [EchoReply 12000000, ReadTimeout] init_engine) =
     [Read Running, Lock, Read Times, Write Times, Read Pings, Write Pings, Unlock,
      Read Running, Lock, Read Times, Write Times, Read Pings, Write Pings, Unlock] \<and>
   guarded series False
     (accesses (ping 150 500 (1 / 10) True [EchoReply 12000000, ReadTimeout] init_engine)) \<and>
   whole_when_free False 0 0
     (accesses (ping 150 500 (1 / 10) True [EchoReply 12000000, ReadTimeout] init_engine)) \<and>
   \<not> whole_when_free False 0 0
     [Read Running, Lock, Read Times, Write Times, Unlock, Lock, Read Pings, Write Pings, Unlock] \<and>
   \<not> guarded flag False
     (accesses (ping 150 500 (1 / 10) True [EchoReply 12000000, ReadTimeout] init_engine)) \<and>
   plotData (render_tick 150 500 [12] [12, 500] [12, 500, 7]) = [12] \<and>
   prefix (pings (ping 150 500 (1 / 10) True [EchoReply 12000000, ReadTimeout] init_engine))
     (pings (ping 150 500 (1 / 10) True
        ([EchoReply 12000000, ReadTimeout] @ [NonEchoReply]) init_engine))"
  using series_lock_discipline [where W = 150 and D = 500 and i = "1 / 10"
      and listen_ok = True and ocs = "[EchoReply 12000000, ReadTimeout]"
      and ocs' = "[NonEchoReply]" and times_copy = "[12]" and times_stats = "[12, 500]"
      and times_again = "[12, 500, 7]" and oc = ReadTimeout and s = init_engine]
  by (simp add: Let_def ping_def cycle_def record_sample_def sleep_def init_engine_def
      series_simps completed_def)

text \<open>
  C10 as the specification has it, every read and write of the series and of the running
  flag under the mutex, fails in the first cycle: line 238 reads the flag before any lock
  is taken.
\<close>

theorem lock_discipline_counterexample:
  "\<not> guarded series_or_flag False
       (accesses (ping 150 500 (1 / 10) True [ReadTimeout] init_engine))"
  by (simp add: ping_def cycle_def record_sample_def sleep_def init_engine_def series_simps)

end
